theory Spec2Isabelle
  imports Main
begin

section \<open>channelcheck: the traversal core of cmd/channelcheck/main.go\<close>

text \<open>
  The program analysed is the one the Makefile builds, \<^verbatim>\<open>cmd/channelcheck/main.go\<close>.
  The file \<^verbatim>\<open>channelcheck.go\<close> at the top of the repository is an earlier copy of the
  same traversal: it has the same stack, the same closure and the same two rules, but
  records only the start point of a node (a \<^verbatim>\<open>token.Position\<close>) where main.go records
  the range from start to end, and it has none of main.go's nil checks.
\<close>

subsection \<open>Syntax trees handed over by go/parser\<close>

text \<open>
  \<^verbatim>\<open>token.Pos\<close> is an integer offset into the file set. A node of \<^verbatim>\<open>go/ast\<close> answers
  \<^verbatim>\<open>Pos()\<close> and \<^verbatim>\<open>End()\<close>; both are kept as the first two fields of every constructor.
  The constructors are the node types the program looks at, with the fields that
  \<^verbatim>\<open>ast.Walk\<close> descends into; every other node type is an \<open>OtherNode\<close> carrying the name
  of its type and its children in the order \<^verbatim>\<open>ast.Walk\<close> visits them (a
  \<^verbatim>\<open>*ast.File\<close>, a block, a function literal, a case clause, a literal, ...).
\<close>

type_synonym token_Pos = int

datatype Node =
    SendStmt token_Pos token_Pos Node Node
  | CallExpr token_Pos token_Pos Node "Node list"
  | SelectStmt token_Pos token_Pos Node
  | ChanType token_Pos token_Pos Node
  | Ident token_Pos token_Pos string
  | OtherNode string token_Pos token_Pos "Node list"

fun node_Pos :: "Node \<Rightarrow> token_Pos" where
  "node_Pos (SendStmt p e c v) = p"
| "node_Pos (CallExpr p e f args) = p"
| "node_Pos (SelectStmt p e b) = p"
| "node_Pos (ChanType p e v) = p"
| "node_Pos (Ident p e name) = p"
| "node_Pos (OtherNode k p e cs) = p"

fun node_End :: "Node \<Rightarrow> token_Pos" where
  "node_End (SendStmt p e c v) = e"
| "node_End (CallExpr p e f args) = e"
| "node_End (SelectStmt p e b) = e"
| "node_End (ChanType p e v) = e"
| "node_End (Ident p e name) = e"
| "node_End (OtherNode k p e cs) = e"

text \<open>The children of a node, in the order of the type switch of \<^verbatim>\<open>ast.Walk\<close>:
  Chan then Value; Fun then Args; Body; Value; none for an identifier.\<close>

fun children :: "Node \<Rightarrow> Node list" where
  "children (SendStmt p e c v) = [c, v]"
| "children (CallExpr p e f args) = f # args"
| "children (SelectStmt p e b) = [b]"
| "children (ChanType p e v) = [v]"
| "children (Ident p e name) = []"
| "children (OtherNode k p e cs) = cs"

text \<open>The type assertions \<^verbatim>\<open>x.(*ast.SelectStmt)\<close> and \<^verbatim>\<open>x.(*ast.ChanType)\<close>.\<close>

fun is_SelectStmt :: "Node \<Rightarrow> bool" where
  "is_SelectStmt (SelectStmt p e b) = True"
| "is_SelectStmt _ = False"

fun is_ChanType :: "Node \<Rightarrow> bool" where
  "is_ChanType (ChanType p e v) = True"
| "is_ChanType _ = False"

fun is_SendStmt :: "Node \<Rightarrow> bool" where
  "is_SendStmt (SendStmt p e c v) = True"
| "is_SendStmt _ = False"

subsection \<open>Positions and issues\<close>

text \<open>\<^verbatim>\<open>token.Position\<close>, and the file set as what \<^verbatim>\<open>fset.Position\<close> answers.\<close>

record token_Position =
  pFilename :: string
  pOffset :: int
  pLine :: int
  pColumn :: int

type_synonym FileSet = "token_Pos \<Rightarrow> token_Position"

record Position =
  Filename :: string
  StartLine :: int
  StartColumn :: int
  EndLine :: int
  EndColumn :: int

record Issue =
  Pos :: Position
  Message :: string
  Severity :: string

subsection \<open>Run-time panics of Go\<close>

datatype panic = SliceBoundsOutOfRange | IndexOutOfRange

text \<open>\<^verbatim>\<open>xs[:n]\<close> and \<^verbatim>\<open>xs[i]\<close> with Go's bounds checks.\<close>

definition slice_to :: "'a list \<Rightarrow> int \<Rightarrow> panic + 'a list" where
  "slice_to xs n =
     (if 0 \<le> n \<and> n \<le> int (length xs) then Inr (take (nat n) xs)
      else Inl SliceBoundsOutOfRange)"

definition index :: "'a list \<Rightarrow> int \<Rightarrow> panic + 'a" where
  "index xs i =
     (if 0 \<le> i \<and> i < int (length xs) then Inr (xs ! nat i) else Inl IndexOutOfRange)"

subsection \<open>The ancestor stack\<close>

text \<open>An \<^verbatim>\<open>ast.Node\<close> is an interface value and may be nil: \<open>None\<close>.\<close>

record parentStack =
  nodes :: "Node option list"

definition push :: "Node option \<Rightarrow> parentStack \<Rightarrow> parentStack" where
  "push n p = (case n of None \<Rightarrow> p | Some x \<Rightarrow> p\<lparr>nodes := nodes p @ [Some x]\<rparr>)"

definition pop :: "parentStack \<Rightarrow> panic + parentStack" where
  "pop p =
     (if int (length (nodes p)) > 0 then
        (case slice_to (nodes p) (int (length (nodes p)) - 1) of
           Inl e \<Rightarrow> Inl e
         | Inr ns \<Rightarrow> Inr (p\<lparr>nodes := ns\<rparr>))
      else Inr p)"

subsection \<open>The analyzer and its two rules\<close>

record Analyzer =
  issues :: "Issue list"
  fset :: FileSet
  stack :: parentStack

definition getPosition :: "Analyzer \<Rightarrow> token_Pos \<Rightarrow> token_Pos \<Rightarrow> Position" where
  "getPosition a start end =
     (let startPos = fset a start; endPos = fset a end
      in \<lparr>Filename = pFilename startPos,
          StartLine = pLine startPos,
          StartColumn = pColumn startPos,
          EndLine = pLine endPos,
          EndColumn = pColumn endPos\<rparr>)"

definition addIssue :: "Analyzer \<Rightarrow> Issue \<Rightarrow> Analyzer" where
  "addIssue a issue = a\<lparr>issues := issues a @ [issue]\<rparr>"

text \<open>The loop of \<^verbatim>\<open>checkChannelSend\<close> over \<^verbatim>\<open>a.stack.nodes\<close>: a nil entry is skipped,
  the first select statement sets \<^verbatim>\<open>inSelect\<close> and breaks.\<close>

fun inSelect :: "Node option list \<Rightarrow> bool" where
  "inSelect [] = False"
| "inSelect (None # rest) = inSelect rest"
| "inSelect (Some parent # rest) = (if is_SelectStmt parent then True else inSelect rest)"

definition checkChannelSend :: "Analyzer \<Rightarrow> Node \<Rightarrow> Analyzer" where
  "checkChannelSend a node =
     (if \<not> inSelect (nodes (stack a)) then
        addIssue a
          \<lparr>Pos = getPosition a (node_Pos node) (node_End node),
           Message = ''channel send without select statement may block indefinitely'',
           Severity = ''WARNING''\<rparr>
      else a)"

text \<open>\<^verbatim>\<open>checkChannelCreation\<close> takes a \<^verbatim>\<open>*ast.CallExpr\<close>; the last equation is never
  reached from the traversal and only makes the function total.\<close>

fun checkChannelCreation :: "Analyzer \<Rightarrow> Node \<Rightarrow> panic + Analyzer" where
  "checkChannelCreation a (CallExpr p e (Ident ip ie name) args) =
     (if name \<noteq> ''make'' then Inr a
      else if int (length args) > 0 then
        (case index args 0 of
           Inl err \<Rightarrow> Inl err
         | Inr arg0 \<Rightarrow>
             (if is_ChanType arg0 then
                (if int (length args) = 1 then
                   Inr (addIssue a
                     \<lparr>Pos = getPosition a (node_Pos (CallExpr p e (Ident ip ie name) args))
                                           (node_End (CallExpr p e (Ident ip ie name) args)),
                      Message = ''unbuffered channel creation detected - consider specifying buffer size'',
                      Severity = ''INFO''\<rparr>)
                 else Inr a)
              else Inr a))
      else Inr a)"
| "checkChannelCreation a (CallExpr p e f args) = Inr a"
| "checkChannelCreation a n = Inr a"

subsection \<open>The closure handed to \<^verbatim>\<open>ast.Inspect\<close>\<close>

text \<open>
  On a node: \<^verbatim>\<open>a.stack.push(n)\<close>, then the type switch. The guards
  \<^verbatim>\<open>node != nil\<close>, \<^verbatim>\<open>fun == nil\<close> and \<^verbatim>\<open>chanType != nil\<close> of the source test for a nil
  pointer of a known type inside an interface value; \<^verbatim>\<open>ast.Walk\<close> hands no such node
  to the callback and the parser stores none, and \<open>Node\<close> has no such value. On nil:
  a pop, if the stack is not empty.
\<close>

definition enter :: "Node \<Rightarrow> Analyzer \<Rightarrow> Analyzer" where
  "enter n a = a\<lparr>stack := push (Some n) (stack a)\<rparr>"

fun dispatch :: "Node \<Rightarrow> Analyzer \<Rightarrow> panic + Analyzer" where
  "dispatch (SendStmt p e c v) a = Inr (checkChannelSend a (SendStmt p e c v))"
| "dispatch (CallExpr p e f args) a = checkChannelCreation a (CallExpr p e f args)"
| "dispatch n a = Inr a"

definition visit :: "Node option \<Rightarrow> Analyzer \<Rightarrow> panic + bool \<times> Analyzer" where
  "visit n a =
     (case n of
        None \<Rightarrow>
          (if int (length (nodes (stack a))) > 0 then
             (case pop (stack a) of
                Inl e \<Rightarrow> Inl e
              | Inr st \<Rightarrow> Inr (True, a\<lparr>stack := st\<rparr>))
           else Inr (True, a))
      | Some x \<Rightarrow>
          (case dispatch x (enter x a) of
             Inl e \<Rightarrow> Inl e
           | Inr a' \<Rightarrow> Inr (True, a')))"

subsection \<open>\<^verbatim>\<open>ast.Inspect\<close> of the Go standard library\<close>

text \<open>
  \<^verbatim>\<open>ast.Inspect(node, f)\<close> calls \<^verbatim>\<open>f(node)\<close>; if that returns true it walks the non-nil
  children of the node in order, each in the same way, and then calls \<^verbatim>\<open>f(nil)\<close>. A
  panic of the callback ends the walk.
\<close>

fun foldE :: "('a \<Rightarrow> 's \<Rightarrow> 'e + 's) \<Rightarrow> 'a list \<Rightarrow> 's \<Rightarrow> 'e + 's" where
  "foldE g [] s = Inr s"
| "foldE g (x # xs) s = (case g x s of Inl e \<Rightarrow> Inl e | Inr s' \<Rightarrow> foldE g xs s')"

lemma foldE_cong [fundef_cong]:
  "xs = ys \<Longrightarrow> s = t \<Longrightarrow> (\<And>x u. x \<in> set ys \<Longrightarrow> g x u = h x u) \<Longrightarrow> foldE g xs s = foldE h ys t"
proof (induction ys arbitrary: xs s t)
  case Nil
  then show ?case by simp
next
  case (Cons y ys)
  then show ?case by (auto split: sum.splits)
qed

lemma size_children: "c \<in> set (children n) \<Longrightarrow> size c < size n"
proof -
  have le: "size c \<le> size_list size xs" if "c \<in> set xs" for xs
    using that by (induction xs) auto
  show "c \<in> set (children n) \<Longrightarrow> size c < size n"
    by (cases n) (auto dest: le)
qed

function Inspect :: "Node \<Rightarrow> (Node option \<Rightarrow> 's \<Rightarrow> panic + bool \<times> 's) \<Rightarrow> 's \<Rightarrow> panic + 's" where
  "Inspect n f s =
     (case f (Some n) s of
        Inl e \<Rightarrow> Inl e
      | Inr (go, s1) \<Rightarrow>
          (if \<not> go then Inr s1
           else (case foldE (\<lambda>c. Inspect c f) (children n) s1 of
                   Inl e \<Rightarrow> Inl e
                 | Inr s2 \<Rightarrow>
                     (case f None s2 of
                        Inl e \<Rightarrow> Inl e
                      | Inr (go', s3) \<Rightarrow> Inr s3))))"
  by pat_completeness auto
termination
  by (relation "measure (\<lambda>(n, f, s). size n)") (auto simp: size_children)

subsection \<open>analyze\<close>

definition analyze :: "Analyzer \<Rightarrow> Node option \<Rightarrow> panic + Analyzer" where
  "analyze a file =
     (case file of
        None \<Rightarrow> Inr a
      | Some root \<Rightarrow> Inspect root visit (a\<lparr>stack := \<lparr>nodes = []\<rparr>\<rparr>))"

subsection \<open>The calls that \<^verbatim>\<open>ast.Inspect\<close> makes, as a list\<close>

text \<open>
  To speak about one node of a tree and its ancestors, the calls of the callback are
  listed in order. \<open>Enter anc n\<close> is the call \<^verbatim>\<open>f(n)\<close> on a node \<open>n\<close> whose ancestors,
  from the root down to its direct parent, are \<open>anc\<close>; \<open>Leave anc n\<close> is the call
  \<^verbatim>\<open>f(nil)\<close> that follows the children of that \<open>n\<close>. The callback itself sees only
  \<open>arg\<close> of the event.
\<close>

datatype event = Enter "Node list" Node | Leave "Node list" Node

function callbacks :: "Node list \<Rightarrow> Node \<Rightarrow> event list" where
  "callbacks anc n =
     Enter anc n # concat (map (callbacks (anc @ [n])) (children n)) @ [Leave anc n]"
  by pat_completeness auto
termination
  by (relation "measure (\<lambda>(anc, n). size n)") (auto simp: size_children)

fun arg :: "event \<Rightarrow> Node option" where
  "arg (Enter anc n) = Some n"
| "arg (Leave anc n) = None"

text \<open>One call of the closure, and a list of calls one after the other.\<close>

definition step :: "event \<Rightarrow> Analyzer \<Rightarrow> panic + Analyzer" where
  "step ev a = (case visit (arg ev) a of Inl e \<Rightarrow> Inl e | Inr (go, a') \<Rightarrow> Inr a')"

definition run_calls :: "event list \<Rightarrow> Analyzer \<Rightarrow> panic + Analyzer" where
  "run_calls evs a = foldE step evs a"

text \<open>The path from the root that belongs to an event: before it, and after it.\<close>

fun context_before :: "event \<Rightarrow> Node option list" where
  "context_before (Enter anc n) = map Some anc"
| "context_before (Leave anc n) = map Some (anc @ [n])"

fun context_after :: "event \<Rightarrow> Node option list" where
  "context_after (Enter anc n) = map Some (anc @ [n])"
| "context_after (Leave anc n) = map Some anc"

fun chained :: "Node option list \<Rightarrow> event list \<Rightarrow> Node option list \<Rightarrow> bool" where
  "chained c [] c' = (c = c')"
| "chained c (ev # evs) c' = (context_before ev = c \<and> chained (context_after ev) evs c')"

text \<open>The issues that the type switch adds at one event: those of the rules run on the
  node with the stack holding its ancestors and the node itself; none on leaving.\<close>

fun found :: "FileSet \<Rightarrow> event \<Rightarrow> Issue list" where
  "found fs (Enter anc n) =
     (case dispatch n \<lparr>issues = [], fset = fs, stack = \<lparr>nodes = map Some (anc @ [n])\<rparr>\<rparr> of
        Inl e \<Rightarrow> []
      | Inr a' \<Rightarrow> issues a')"
| "found fs (Leave anc n) = []"

definition file_issues :: "FileSet \<Rightarrow> Node \<Rightarrow> Issue list" where
  "file_issues fs file = concat (map (found fs) (callbacks [] file))"

text \<open>Any sequence of pushes and pops, and any sequence of calls of the closure.\<close>

datatype stack_op = Push "Node option" | Pop

fun apply_op :: "stack_op \<Rightarrow> parentStack \<Rightarrow> panic + parentStack" where
  "apply_op (Push n) p = Inr (push n p)"
| "apply_op Pop p = pop p"

definition feed :: "Node option list \<Rightarrow> Analyzer \<Rightarrow> panic + Analyzer" where
  "feed xs a =
     foldE (\<lambda>x s. case visit x s of Inl e \<Rightarrow> Inl e | Inr (go, s') \<Rightarrow> Inr s') xs a"

text \<open>The two diagnostics.\<close>

definition send_warning :: "FileSet \<Rightarrow> Node \<Rightarrow> Issue" where
  "send_warning fs n =
     \<lparr>Pos = \<lparr>Filename = pFilename (fs (node_Pos n)),
             StartLine = pLine (fs (node_Pos n)),
             StartColumn = pColumn (fs (node_Pos n)),
             EndLine = pLine (fs (node_End n)),
             EndColumn = pColumn (fs (node_End n))\<rparr>,
      Message = ''channel send without select statement may block indefinitely'',
      Severity = ''WARNING''\<rparr>"

definition creation_info :: "FileSet \<Rightarrow> Node \<Rightarrow> Issue" where
  "creation_info fs n =
     \<lparr>Pos = \<lparr>Filename = pFilename (fs (node_Pos n)),
             StartLine = pLine (fs (node_Pos n)),
             StartColumn = pColumn (fs (node_Pos n)),
             EndLine = pLine (fs (node_End n)),
             EndColumn = pColumn (fs (node_End n))\<rparr>,
      Message = ''unbuffered channel creation detected - consider specifying buffer size'',
      Severity = ''INFO''\<rparr>"


text \<open>A list of nodes in which each one is a child of the one before it, and the nodes
  from the root down to the node of an event.\<close>

fun descends :: "Node list \<Rightarrow> bool" where
  "descends [] = True"
| "descends [x] = True"
| "descends (x # y # zs) = (y \<in> set (children x) \<and> descends (y # zs))"

fun path :: "event \<Rightarrow> Node list" where
  "path (Enter anc n) = anc @ [n]"
| "path (Leave anc n) = anc @ [n]"

text \<open>The two shapes an issue can have.\<close>

definition two_forms :: "Issue \<Rightarrow> bool" where
  "two_forms i \<longleftrightarrow>
     (Severity i = ''WARNING''
        \<and> Message i = ''channel send without select statement may block indefinitely'')
     \<or> (Severity i = ''INFO''
        \<and> Message i = ''unbuffered channel creation detected - consider specifying buffer size'')"

subsection \<open>Example files\<close>

text \<open>A file set that puts everything on line 1 of \<^verbatim>\<open>p.go\<close>, the analyzer as
  the program creates it at its start, and the tree of \<^verbatim>\<open>package p; func f() { ch <- x }\<close>.\<close>

definition fs0 :: FileSet where
  "fs0 p = \<lparr>pFilename = ''p.go'', pOffset = p - 1, pLine = 1, pColumn = p\<rparr>"

definition fresh :: Analyzer where
  "fresh = \<lparr>issues = [], fset = fs0, stack = \<lparr>nodes = []\<rparr>\<rparr>"

definition send1 :: Node where
  "send1 = SendStmt 23 30 (Ident 23 25 ''ch'') (Ident 29 30 ''x'')"

definition body1 :: Node where
  "body1 = OtherNode ''BlockStmt'' 21 32 [send1]"

definition func1 :: Node where
  "func1 = OtherNode ''FuncDecl'' 12 32
     [Ident 17 18 ''f'', OtherNode ''FuncType'' 12 20 [OtherNode ''FieldList'' 18 20 []], body1]"

definition send_file :: Node where
  "send_file = OtherNode ''File'' 1 32 [Ident 9 10 ''p'', func1]"

text \<open>package p; func f() { select { case ch <- x: } }\<close>

definition send2 :: Node where
  "send2 = SendStmt 37 44 (Ident 37 39 ''ch'') (Ident 43 44 ''x'')"

definition clause2 :: Node where
  "clause2 = OtherNode ''CommClause'' 32 45 [send2]"

definition cases2 :: Node where
  "cases2 = OtherNode ''BlockStmt'' 30 47 [clause2]"

definition select2 :: Node where
  "select2 = SelectStmt 23 47 cases2"

definition body2 :: Node where
  "body2 = OtherNode ''BlockStmt'' 21 49 [select2]"

definition func2 :: Node where
  "func2 = OtherNode ''FuncDecl'' 12 49
     [Ident 17 18 ''f'', OtherNode ''FuncType'' 12 20 [OtherNode ''FieldList'' 18 20 []], body2]"

definition select_file :: Node where
  "select_file = OtherNode ''File'' 1 49 [Ident 9 10 ''p'', func2]"

text \<open>package p; func f() { make(chan int) }\<close>

definition make3 :: Node where
  "make3 = CallExpr 23 37 (Ident 23 27 ''make'') [ChanType 28 36 (Ident 33 36 ''int'')]"

definition stmt3 :: Node where
  "stmt3 = OtherNode ''ExprStmt'' 23 37 [make3]"

definition body3 :: Node where
  "body3 = OtherNode ''BlockStmt'' 21 39 [stmt3]"

definition func3 :: Node where
  "func3 = OtherNode ''FuncDecl'' 12 39
     [Ident 17 18 ''f'', OtherNode ''FuncType'' 12 20 [OtherNode ''FieldList'' 18 20 []], body3]"

definition make_file :: Node where
  "make_file = OtherNode ''File'' 1 39 [Ident 9 10 ''p'', func3]"

text \<open>package p; func f() { make(chan int, 1) }\<close>

definition make4 :: Node where
  "make4 = CallExpr 23 40 (Ident 23 27 ''make'')
     [ChanType 28 36 (Ident 33 36 ''int''), OtherNode ''BasicLit'' 38 39 []]"

definition stmt4 :: Node where
  "stmt4 = OtherNode ''ExprStmt'' 23 40 [make4]"

definition body4 :: Node where
  "body4 = OtherNode ''BlockStmt'' 21 42 [stmt4]"

definition func4 :: Node where
  "func4 = OtherNode ''FuncDecl'' 12 42
     [Ident 17 18 ''f'', OtherNode ''FuncType'' 12 20 [OtherNode ''FieldList'' 18 20 []], body4]"

definition buffered_file :: Node where
  "buffered_file = OtherNode ''File'' 1 42 [Ident 9 10 ''p'', func4]"

text \<open>A scan of two files: \<^verbatim>\<open>p.go\<close> as above, occupying positions 1 to 32 of the file
  set, then \<^verbatim>\<open>q.go\<close> holding \<^verbatim>\<open>package q\<close>, from position 33 on.\<close>

definition fs2 :: FileSet where
  "fs2 p = (if p \<le> 32 then \<lparr>pFilename = ''p.go'', pOffset = p - 1, pLine = 1, pColumn = p\<rparr>
            else \<lparr>pFilename = ''q.go'', pOffset = p - 33, pLine = 1, pColumn = p - 32\<rparr>)"

definition scan0 :: Analyzer where
  "scan0 = \<lparr>issues = [], fset = fs2, stack = \<lparr>nodes = []\<rparr>\<rparr>"

definition empty_file :: Node where
  "empty_file = OtherNode ''File'' 33 42 [Ident 41 42 ''q'']"

section \<open>The traversal as a list of calls\<close>

declare Inspect.simps [simp del] callbacks.simps [simp del]

lemma foldE_append:
  "foldE g (xs @ ys) s = (case foldE g xs s of Inl e \<Rightarrow> Inl e | Inr s' \<Rightarrow> foldE g ys s')"
  by (induction xs arbitrary: s) (auto split: sum.splits)

lemma foldE_concat:
  "foldE (\<lambda>c. foldE g (h c)) cs s = foldE g (concat (map h cs)) s"
  by (induction cs arbitrary: s) (auto simp: foldE_append split: sum.splits)

lemma pop_eq: "pop p = Inr (p\<lparr>nodes := butlast (nodes p)\<rparr>)"
proof -
  have "nat (int (length (nodes p)) - 1) = length (nodes p) - 1" by simp
  then show ?thesis
    by (cases p) (auto simp: pop_def slice_to_def butlast_conv_take)
qed

lemma visit_None:
  "visit None a = Inr (True, a\<lparr>stack := (stack a)\<lparr>nodes := butlast (nodes (stack a))\<rparr>\<rparr>)"
  by (cases a) (auto simp: visit_def pop_eq)

lemma index_0: "index (x # xs) 0 = Inr x"
  by (simp add: index_def)

lemma dispatch_found:
  assumes "nodes (stack a) = map Some (anc @ [n])"
  shows "dispatch n a = Inr (a\<lparr>issues := issues a @ found (fset a) (Enter anc n)\<rparr>)"
proof (cases n)
  case (SendStmt p e c v)
  then show ?thesis using assms
    by (simp add: checkChannelSend_def addIssue_def getPosition_def)
next
  case (CallExpr p e f args)
  show ?thesis
  proof (cases f)
    case (Ident ip ie name)
    show ?thesis
    proof (cases args)
      case Nil
      then show ?thesis using CallExpr Ident by simp
    next
      case (Cons x xs)
      then show ?thesis using CallExpr Ident
        by (simp add: index_0 addIssue_def getPosition_def)
    qed
  qed (simp_all add: CallExpr)
qed simp_all

lemma visit_Some:
  assumes "nodes (stack a) = map Some anc"
  shows "visit (Some n) a =
    Inr (True, a\<lparr>stack := (stack a)\<lparr>nodes := map Some (anc @ [n])\<rparr>,
                  issues := issues a @ found (fset a) (Enter anc n)\<rparr>)"
proof -
  have "nodes (stack (enter n a)) = map Some (anc @ [n])"
    using assms by (simp add: enter_def push_def)
  from dispatch_found[OF this] show ?thesis
    using assms by (simp add: visit_def enter_def push_def)
qed

lemma step_ok:
  assumes "nodes (stack a) = context_before ev"
  shows "step ev a =
    Inr (a\<lparr>stack := (stack a)\<lparr>nodes := context_after ev\<rparr>,
            issues := issues a @ found (fset a) ev\<rparr>)"
proof (cases ev)
  case (Enter anc n)
  then show ?thesis using visit_Some[of a anc n] assms by (simp add: step_def)
next
  case (Leave anc n)
  then show ?thesis using assms by (simp add: step_def visit_None)
qed

lemma run_chained:
  "chained c evs c' \<Longrightarrow> nodes (stack a) = c \<Longrightarrow>
   run_calls evs a = Inr (a\<lparr>stack := (stack a)\<lparr>nodes := c'\<rparr>,
                     issues := issues a @ concat (map (found (fset a)) evs)\<rparr>)"
proof (induction evs arbitrary: a c)
  case Nil
  then show ?case by (simp add: run_calls_def)
next
  case (Cons ev evs)
  from Cons.prems have b: "nodes (stack a) = context_before ev"
    and ch: "chained (context_after ev) evs c'" by simp_all
  let ?a1 = "a\<lparr>stack := (stack a)\<lparr>nodes := context_after ev\<rparr>,
               issues := issues a @ found (fset a) ev\<rparr>"
  have "run_calls evs ?a1 = Inr (?a1\<lparr>stack := (stack ?a1)\<lparr>nodes := c'\<rparr>,
                     issues := issues ?a1 @ concat (map (found (fset ?a1)) evs)\<rparr>)"
    by (rule Cons.IH[OF ch]) simp
  then show ?case using step_ok[OF b] by (simp add: run_calls_def)
qed

lemma chained_append:
  "chained c (xs @ ys) c' = (\<exists>m. chained c xs m \<and> chained m ys c')"
  by (induction xs arbitrary: c) auto

lemma chained_concat:
  "(\<And>x. x \<in> set xs \<Longrightarrow> chained c (h x) c) \<Longrightarrow> chained c (concat (map h xs)) c"
  by (induction xs) (auto simp: chained_append)

lemma callbacks_chained: "chained (map Some anc) (callbacks anc n) (map Some anc)"
proof (induction "size n" arbitrary: n anc rule: less_induct)
  case less
  have "chained (map Some (anc @ [n])) (concat (map (callbacks (anc @ [n])) (children n)))
          (map Some (anc @ [n]))"
    by (rule chained_concat) (rule less, rule size_children)
  then show ?case
    by (subst callbacks.simps) (auto simp: chained_append)
qed

lemma visit_go: "visit x a = Inr (go, a') \<Longrightarrow> go"
  by (auto simp: visit_def split: option.splits sum.splits if_splits)

lemma run_Cons: "run_calls (ev # evs) a = (case step ev a of Inl e \<Rightarrow> Inl e | Inr a' \<Rightarrow> run_calls evs a')"
  unfolding run_calls_def by simp

lemma run_append:
  "run_calls (xs @ ys) a = (case run_calls xs a of Inl e \<Rightarrow> Inl e | Inr a' \<Rightarrow> run_calls ys a')"
  unfolding run_calls_def by (simp add: foldE_append)

lemma Inspect_visit: "Inspect n visit a = run_calls (callbacks anc n) a"
proof (induction "size n" arbitrary: n anc a rule: less_induct)
  case less
  have kids: "foldE (\<lambda>c. Inspect c visit) (children n) s =
        run_calls (concat (map (callbacks (anc @ [n])) (children n))) s" for s
  proof -
    have "foldE (\<lambda>c. Inspect c visit) (children n) s =
          foldE (\<lambda>c. foldE step (callbacks (anc @ [n]) c)) (children n) s"
      by (rule foldE_cong) (simp_all add: less size_children run_calls_def[symmetric])
    then show ?thesis by (simp add: foldE_concat run_calls_def)
  qed
  show ?case
    apply (subst Inspect.simps)
    apply (subst callbacks.simps)
    apply (simp add: run_Cons run_append kids step_def run_calls_def[of "[]"] split: sum.splits prod.splits)
    apply (auto dest: visit_go)
    done
qed


lemma analyze_Some:
  "analyze a (Some file) =
     Inr (a\<lparr>stack := \<lparr>nodes = []\<rparr>, issues := issues a @ file_issues (fset a) file\<rparr>)"
proof -
  have "chained [] (callbacks [] file) []"
    using callbacks_chained[of "[]" "file"] by simp
  from run_chained[OF this, of "a\<lparr>stack := \<lparr>nodes = []\<rparr>\<rparr>"]
  show ?thesis
    by (simp add: analyze_def Inspect_visit[of "file" _ "[]"] file_issues_def)
qed

lemma analyze_run:
  "analyze a (Some file) = run_calls (callbacks [] file) (a\<lparr>stack := \<lparr>nodes = []\<rparr>\<rparr>)"
  by (simp add: analyze_def Inspect_visit[of "file" _ "[]"])

lemma run_prefix:
  assumes "callbacks [] file = pre @ ev # post"
  shows "run_calls pre (a\<lparr>stack := \<lparr>nodes = []\<rparr>\<rparr>) =
     Inr (a\<lparr>stack := \<lparr>nodes = context_before ev\<rparr>,
            issues := issues a @ concat (map (found (fset a)) pre)\<rparr>)"
proof -
  have "chained [] (pre @ ev # post) []"
    using callbacks_chained[of "[]" "file"] assms by simp
  then have "chained [] pre (context_before ev)"
    by (auto simp: chained_append)
  from run_chained[OF this, of "a\<lparr>stack := \<lparr>nodes = []\<rparr>\<rparr>"]
  show ?thesis by simp
qed

lemma file_issues_split:
  "callbacks [] file = pre @ ev # post \<Longrightarrow>
   file_issues fs file = concat (map (found fs) pre) @ found fs ev @ concat (map (found fs) post)"
  by (simp add: file_issues_def)

lemma inSelect_map_Some: "inSelect (map Some xs) = (\<exists>x\<in>set xs. is_SelectStmt x)"
  by (induction xs) auto

subsection \<open>Paths, totality and the shapes of issues\<close>

lemma callbacks_path:
  "ev \<in> set (callbacks anc n) \<Longrightarrow> \<exists>rest. path ev = anc @ n # rest \<and> descends (n # rest)"
proof (induction "size n" arbitrary: n anc rule: less_induct)
  case less
  from less.prems have "ev = Enter anc n \<or> ev = Leave anc n
      \<or> (\<exists>c \<in> set (children n). ev \<in> set (callbacks (anc @ [n]) c))"
    by (subst (asm) callbacks.simps) auto
  then show ?case
  proof (elim disjE bexE)
    fix c assume c: "c \<in> set (children n)" and ev: "ev \<in> set (callbacks (anc @ [n]) c)"
    from less.hyps[OF size_children[OF c] ev]
    obtain rest where "path ev = (anc @ [n]) @ c # rest" "descends (c # rest)" by blast
    then have "path ev = anc @ n # (c # rest) \<and> descends (n # c # rest)"
      using c by simp
    then show ?thesis by blast
  qed auto
qed

lemma root_path:
  assumes "callbacks [] file = pre @ Enter anc n # post"
  shows "\<exists>rest. anc @ [n] = file # rest \<and> descends (file # rest)"
proof -
  have "Enter anc n \<in> set (callbacks [] file)" using assms by simp
  from callbacks_path[OF this] show ?thesis by simp
qed


lemma leaves_eq_enters:
  "length (filter (\<lambda>ev. arg ev = None) (callbacks anc n)) =
   length (filter (\<lambda>ev. arg ev \<noteq> None) (callbacks anc n))"
proof (induction "size n" arbitrary: n anc rule: less_induct)
  case less
  have "sum_list (map (\<lambda>c. length (filter (\<lambda>ev. arg ev = None) (callbacks (anc @ [n]) c)))
          (children n)) =
        sum_list (map (\<lambda>c. length (filter (\<lambda>ev. arg ev \<noteq> None) (callbacks (anc @ [n]) c)))
          (children n))"
    by (rule arg_cong[where f = sum_list], rule map_cong) (simp_all add: less size_children)
  then show ?case
    by (subst (1 2) callbacks.simps)
       (simp add: filter_concat length_concat comp_def)
qed

lemma dispatch_total: "\<exists>a'. dispatch n a = Inr a'"
proof (cases n)
  case (CallExpr p e f args)
  then show ?thesis
    by (cases f; cases args) (simp_all add: index_0)
qed simp_all

lemma visit_total: "\<exists>a'. visit x a = Inr (True, a')"
proof (cases x)
  case None
  then show ?thesis by (simp add: visit_None)
next
  case (Some n)
  from dispatch_total[of n "enter n a"] obtain a' where "dispatch n (enter n a) = Inr a'" ..
  then show ?thesis using Some by (simp add: visit_def)
qed

lemma feed_total: "\<exists>a'. feed xs a = Inr a'"
proof (induction xs arbitrary: a)
  case Nil
  then show ?case by (simp add: feed_def)
next
  case (Cons x xs)
  from visit_total[of x a] obtain a1 where "visit x a = Inr (True, a1)" ..
  then show ?case using Cons[of a1] by (simp add: feed_def)
qed

lemma ops_total: "\<exists>q. foldE apply_op ops p = Inr q"
proof (induction ops arbitrary: p)
  case Nil
  then show ?case by simp
next
  case (Cons x ops)
  then show ?case by (cases x) (simp_all add: pop_eq)
qed

lemma feed_nils:
  "feed (replicate k None) (a\<lparr>stack := \<lparr>nodes = []\<rparr>\<rparr>) = Inr (a\<lparr>stack := \<lparr>nodes = []\<rparr>\<rparr>)"
  by (induction k) (simp_all add: feed_def visit_def)

lemma found_two_forms: "i \<in> set (found fs ev) \<Longrightarrow> two_forms i"
proof (cases ev)
  case (Enter anc n)
  assume i: "i \<in> set (found fs ev)"
  show ?thesis
  proof (cases n)
    case (SendStmt p e c v)
    then show ?thesis using i Enter
      by (auto simp: checkChannelSend_def addIssue_def two_forms_def split: if_splits)
  next
    case (CallExpr p e f args)
    then show ?thesis using i Enter
      by (cases f; cases args)
         (auto simp: index_0 addIssue_def two_forms_def split: if_splits)
  qed (use i Enter in simp_all)
qed simp


subsection \<open>The example files evaluated\<close>

lemmas ex_defs = send_file_def func1_def body1_def send1_def fresh_def

lemmas ex2_defs = select_file_def func2_def body2_def select2_def cases2_def clause2_def send2_def
lemmas ex3_defs = make_file_def func3_def body3_def stmt3_def make3_def
lemmas ex4_defs = buffered_file_def func4_def body4_def stmt4_def make4_def

lemma callbacks_send_file:
  "callbacks [] send_file =
     take 11 (callbacks [] send_file) @ Enter [send_file, func1, body1] send1
       # drop 12 (callbacks [] send_file)"
  by (simp add: ex_defs callbacks.simps)

lemma callbacks_send_file_leave:
  "callbacks [] send_file =
     take 16 (callbacks [] send_file) @ Leave [send_file, func1, body1] send1
       # drop 17 (callbacks [] send_file)"
  by (simp add: ex_defs callbacks.simps)

lemma file_issues_send_file: "file_issues fs send_file = [send_warning fs send1]"
  by (simp add: file_issues_def ex_defs callbacks.simps checkChannelSend_def addIssue_def
      getPosition_def send_warning_def Let_def)

lemma file_issues_empty_file: "file_issues fs empty_file = []"
  by (simp add: file_issues_def empty_file_def callbacks.simps)

section \<open>The claims\<close>

text \<open>
  C1. A send statement with no select statement among its ancestors: the traversal adds
  exactly one issue at the visit of that send, between the issues of the calls before it
  and those of the calls after it. The issue has severity WARNING, the fixed message, and
  the range from the send's start to its end as its location.
\<close>

theorem send_outside_select_warned:
  assumes "callbacks [] file = pre @ Enter anc n # post"
    and "is_SendStmt n"
    and "\<forall>p \<in> set anc. \<not> is_SelectStmt p"
  shows "\<exists>a'. analyze a (Some file) = Inr a' \<and>
           issues a' = issues a @ concat (map (found (fset a)) pre)
                         @ [send_warning (fset a) n]
                         @ concat (map (found (fset a)) post)"
proof -
  from assms(2) obtain p e c v where n: "n = SendStmt p e c v"
    by (cases n) simp_all
  have "\<not> inSelect (map Some (anc @ [n]))"
    unfolding inSelect_map_Some using assms(3) n by simp
  then have "found (fset a) (Enter anc n) = [send_warning (fset a) n]"
    using n by (simp add: checkChannelSend_def addIssue_def getPosition_def send_warning_def Let_def)
  then show ?thesis
    using file_issues_split[OF assms(1), of "fset a"] by (simp add: analyze_Some)
qed

theorem send_outside_select_warned_witness:
  "\<exists>a'. analyze fresh (Some send_file) = Inr a' \<and> issues a' = [send_warning fs0 send1]"
proof -
  have ev: "callbacks [] send_file =
      take 11 (callbacks [] send_file) @ Enter [send_file, func1, body1] send1
        # drop 12 (callbacks [] send_file)"
    by (simp add: ex_defs callbacks.simps)
  have s: "is_SendStmt send1" by (simp add: send1_def)
  have anc: "\<forall>p \<in> set [send_file, func1, body1]. \<not> is_SelectStmt p"
    by (simp add: ex_defs)
  have pre: "concat (map (found fs0) (take 11 (callbacks [] send_file))) = []"
    by (simp add: ex_defs callbacks.simps)
  have post: "concat (map (found fs0) (drop 12 (callbacks [] send_file))) = []"
    by (simp add: ex_defs callbacks.simps)
  from send_outside_select_warned[OF ev s anc, of fresh]
  show ?thesis unfolding pre post by (simp add: fresh_def pre post)
qed

text \<open>
  C2. A send statement with a select statement somewhere among its ancestors, whatever
  the other ancestors are: the visit of that send adds no issue; the issues of the file
  are those of the calls before it followed by those of the calls after it.
\<close>

theorem send_under_select_silent:
  assumes "callbacks [] file = pre @ Enter anc n # post"
    and "is_SendStmt n"
    and "\<exists>p \<in> set anc. is_SelectStmt p"
  shows "\<exists>a'. analyze a (Some file) = Inr a' \<and>
           issues a' = issues a @ concat (map (found (fset a)) pre)
                         @ concat (map (found (fset a)) post)"
proof -
  from assms(2) obtain p e c v where n: "n = SendStmt p e c v"
    by (cases n) simp_all
  have "inSelect (map Some (anc @ [n]))"
    unfolding inSelect_map_Some using assms(3) by auto
  then have "found (fset a) (Enter anc n) = []"
    using n by (simp add: checkChannelSend_def)
  then show ?thesis
    using file_issues_split[OF assms(1), of "fset a"] by (simp add: analyze_Some)
qed

theorem send_under_select_silent_witness:
  "\<exists>a'. analyze fresh (Some select_file) = Inr a' \<and> issues a' = []"
proof -
  have ev: "callbacks [] select_file =
      take 14 (callbacks [] select_file)
        @ Enter [select_file, func2, body2, select2, cases2, clause2] send2
        # drop 15 (callbacks [] select_file)"
    by (simp add: ex2_defs callbacks.simps)
  have s: "is_SendStmt send2" by (simp add: send2_def)
  have anc: "\<exists>p \<in> set [select_file, func2, body2, select2, cases2, clause2]. is_SelectStmt p"
    by (simp add: select2_def)
  have pre: "concat (map (found fs0) (take 14 (callbacks [] select_file))) = []"
    by (simp add: ex2_defs callbacks.simps)
  have post: "concat (map (found fs0) (drop 15 (callbacks [] select_file))) = []"
    by (simp add: ex2_defs callbacks.simps)
  from send_under_select_silent[OF ev s anc, of fresh]
  show ?thesis by (simp add: fresh_def pre post)
qed


text \<open>
  C3. A call expression: if the callee is the identifier \<^verbatim>\<open>make\<close>, the first argument is
  a channel type and there is exactly one argument, the visit of the call adds exactly one
  issue, with severity INFO, the fixed message and the call's range; with two or more
  arguments, or when callee or first argument are anything else, it adds none.
\<close>

theorem make_chan_reported:
  assumes "callbacks [] file = pre @ Enter anc (CallExpr p e f args) # post"
  shows "\<exists>a'. analyze a (Some file) = Inr a' \<and>
           issues a' = issues a @ concat (map (found (fset a)) pre)
             @ (if (\<exists>ip ie. f = Ident ip ie ''make'')
                   \<and> (\<exists>t rest. args = t # rest \<and> is_ChanType t)
                   \<and> length args = 1
                then [creation_info (fset a) (CallExpr p e f args)] else [])
             @ concat (map (found (fset a)) post)"
proof -
  have "found (fset a) (Enter anc (CallExpr p e f args)) =
     (if (\<exists>ip ie. f = Ident ip ie ''make'')
         \<and> (\<exists>t rest. args = t # rest \<and> is_ChanType t) \<and> length args = 1
      then [creation_info (fset a) (CallExpr p e f args)] else [])"
  proof (cases f)
    case (Ident ip ie name)
    show ?thesis
    proof (cases args)
      case Nil
      then show ?thesis using Ident by simp
    next
      case (Cons t rest)
      then show ?thesis using Ident
        by (simp add: index_0 addIssue_def getPosition_def creation_info_def Let_def)
    qed
  qed simp_all
  then show ?thesis
    using file_issues_split[OF assms(1), of "fset a"] by (simp add: analyze_Some)
qed

theorem make_chan_reported_witness:
  "(\<exists>a'. analyze fresh (Some make_file) = Inr a' \<and> issues a' = [creation_info fs0 make3])
   \<and> (\<exists>a'. analyze fresh (Some buffered_file) = Inr a' \<and> issues a' = [])"
proof -
  have ev: "callbacks [] make_file =
      take 12 (callbacks [] make_file)
        @ Enter [make_file, func3, body3, stmt3]
            (CallExpr 23 37 (Ident 23 27 ''make'') [ChanType 28 36 (Ident 33 36 ''int'')])
        # drop 13 (callbacks [] make_file)"
    by (simp add: ex3_defs callbacks.simps)
  have pre: "concat (map (found fs0) (take 12 (callbacks [] make_file))) = []"
    by (simp add: ex3_defs callbacks.simps)
  have post: "concat (map (found fs0) (drop 13 (callbacks [] make_file))) = []"
    by (simp add: ex3_defs callbacks.simps)
  have ev': "callbacks [] buffered_file =
      take 12 (callbacks [] buffered_file)
        @ Enter [buffered_file, func4, body4, stmt4]
            (CallExpr 23 40 (Ident 23 27 ''make'')
               [ChanType 28 36 (Ident 33 36 ''int''), OtherNode ''BasicLit'' 38 39 []])
        # drop 13 (callbacks [] buffered_file)"
    by (simp add: ex4_defs callbacks.simps)
  have pre': "concat (map (found fs0) (take 12 (callbacks [] buffered_file))) = []"
    by (simp add: ex4_defs callbacks.simps)
  have post': "concat (map (found fs0) (drop 13 (callbacks [] buffered_file))) = []"
    by (simp add: ex4_defs callbacks.simps)
  from make_chan_reported[OF ev, of fresh] make_chan_reported[OF ev', of fresh]
  show ?thesis by (simp add: fresh_def pre post pre' post' make3_def)
qed

text \<open>
  C4, as stated, fails. In \<^verbatim>\<open>package p; func f() { ch <- x }\<close> the send is reached with
  the stack holding the file, the function declaration and the block; the closure pushes
  the send before the type switch, so \<^verbatim>\<open>checkChannelSend\<close> runs with the send itself as
  the last element of the stack, not its parent.
\<close>

theorem context_excludes_node_counterexample:
  "callbacks [] send_file =
     take 11 (callbacks [] send_file) @ Enter [send_file, func1, body1] send1
       # drop 12 (callbacks [] send_file)
   \<and> run_calls (take 11 (callbacks [] send_file)) fresh =
       Inr (fresh\<lparr>stack := \<lparr>nodes = [Some send_file, Some func1, Some body1]\<rparr>\<rparr>)
   \<and> nodes (stack (enter send1
         (fresh\<lparr>stack := \<lparr>nodes = [Some send_file, Some func1, Some body1]\<rparr>\<rparr>)))
       = [Some send_file, Some func1, Some body1, Some send1]
   \<and> [Some send_file, Some func1, Some body1, Some send1]
       \<noteq> map Some [send_file, func1, body1]"
proof -
  have pre: "concat (map (found fs0) (take 11 (callbacks [] send_file))) = []"
    by (simp add: ex_defs callbacks.simps)
  have "run_calls (take 11 (callbacks [] send_file)) fresh =
       Inr (fresh\<lparr>stack := \<lparr>nodes = [Some send_file, Some func1, Some body1]\<rparr>\<rparr>)"
    using run_prefix[OF callbacks_send_file, of fresh] pre by (simp add: fresh_def)
  then show ?thesis
    using callbacks_send_file by (simp add: enter_def push_def)
qed

text \<open>
  C4, amended. When the type switch runs on a node \<open>n\<close>, the stack is exactly the path
  from the root of the tree to \<open>n\<close> itself: its first element is the root, each element
  is a child of the one before it, the last element is \<open>n\<close> and the one before it the
  direct parent of \<open>n\<close>. Just before \<open>n\<close> is entered the stack ends at that parent.
\<close>

theorem context_includes_node:
  assumes "callbacks [] file = pre @ Enter anc n # post"
  shows "analyze a (Some file) = run_calls (callbacks [] file) (a\<lparr>stack := \<lparr>nodes = []\<rparr>\<rparr>)
    \<and> (\<exists>rest. anc @ [n] = file # rest \<and> descends (file # rest))
    \<and> (\<exists>s. run_calls pre (a\<lparr>stack := \<lparr>nodes = []\<rparr>\<rparr>) = Inr s
          \<and> nodes (stack s) = map Some anc
          \<and> nodes (stack (enter n s)) = map Some (anc @ [n])
          \<and> visit (Some n) s =
              (case dispatch n (enter n s) of Inl e \<Rightarrow> Inl e | Inr a' \<Rightarrow> Inr (True, a')))"
  using run_prefix[OF assms, of a] root_path[OF assms]
  by (simp add: analyze_run enter_def push_def visit_def)

theorem context_includes_node_witness:
  "\<exists>s. run_calls (take 11 (callbacks [] send_file)) (fresh\<lparr>stack := \<lparr>nodes = []\<rparr>\<rparr>) = Inr s
      \<and> nodes (stack (enter send1 s)) = [Some send_file, Some func1, Some body1, Some send1]"
  using context_includes_node[OF callbacks_send_file, of fresh] by auto

text \<open>
  C5, as stated, fails. \<open>analyze\<close> resets the stack and nothing else. In a scan of
  \<^verbatim>\<open>p.go\<close> and then \<^verbatim>\<open>q.go\<close>, the issues after \<^verbatim>\<open>q.go\<close> still hold the warning of
  \<^verbatim>\<open>p.go\<close>, although \<^verbatim>\<open>q.go\<close> on its own has none.
\<close>

theorem collector_not_reset_counterexample:
  "analyze scan0 (Some send_file) = Inr (scan0\<lparr>issues := [send_warning fs2 send1]\<rparr>)
   \<and> analyze (scan0\<lparr>issues := [send_warning fs2 send1]\<rparr>) (Some empty_file)
       = Inr (scan0\<lparr>issues := [send_warning fs2 send1]\<rparr>)
   \<and> analyze scan0 (Some empty_file) = Inr scan0"
  by (simp add: analyze_Some file_issues_send_file file_issues_empty_file scan0_def)

text \<open>
  C5, amended. At the start of each file's analysis the stack is reset, whatever it held;
  the issues are not: they are only appended to, so after a second file the analyzer holds
  what it held before the scan, then the issues of the first file, then those of the
  second, in the order of analysis.
\<close>

theorem issues_accumulate_across_files:
  "\<exists>a1 a2. analyze a (Some file1) = Inr a1 \<and> analyze a1 (Some file2) = Inr a2
     \<and> nodes (stack a1) = [] \<and> nodes (stack a2) = []
     \<and> issues a1 = issues a @ file_issues (fset a) file1
     \<and> issues a2 = issues a @ file_issues (fset a) file1 @ file_issues (fset a) file2
     \<and> analyze (a\<lparr>stack := st\<rparr>) (Some file1) = analyze a (Some file1)"
  by (simp add: analyze_Some)

text \<open>
  C6. The traversal never panics and ends with an empty stack. The callback is called on
  nil as often as on a node. Whenever it is called on nil after the children of a node
  \<open>n\<close>, the stack is the path from the root to \<open>n\<close>, and the pop takes off exactly
  \<open>n\<close>, leaving the path to its parent.
\<close>

theorem stack_discipline:
  "(\<exists>a'. analyze a (Some file) = Inr a' \<and> nodes (stack a') = [])
   \<and> analyze a (Some file) = run_calls (callbacks [] file) (a\<lparr>stack := \<lparr>nodes = []\<rparr>\<rparr>)
   \<and> length (filter (\<lambda>ev. arg ev = None) (callbacks [] file)) =
       length (filter (\<lambda>ev. arg ev \<noteq> None) (callbacks [] file))
   \<and> (\<forall>pre anc n post. callbacks [] file = pre @ Leave anc n # post \<longrightarrow>
        (\<exists>s. run_calls pre (a\<lparr>stack := \<lparr>nodes = []\<rparr>\<rparr>) = Inr s
            \<and> nodes (stack s) = map Some (anc @ [n])
            \<and> visit None s = Inr (True, s\<lparr>stack := \<lparr>nodes = map Some anc\<rparr>\<rparr>)))"
proof -
  have "\<exists>s. run_calls pre (a\<lparr>stack := \<lparr>nodes = []\<rparr>\<rparr>) = Inr s
            \<and> nodes (stack s) = map Some (anc @ [n])
            \<and> visit None s = Inr (True, s\<lparr>stack := \<lparr>nodes = map Some anc\<rparr>\<rparr>)"
    if "callbacks [] file = pre @ Leave anc n # post" for pre anc n post
    using run_prefix[OF that, of a] by (simp add: visit_None)
  then show ?thesis
    by (simp add: analyze_Some analyze_run[symmetric] leaves_eq_enters)
qed

theorem stack_discipline_witness:
  "\<exists>s. run_calls (take 16 (callbacks [] send_file)) (fresh\<lparr>stack := \<lparr>nodes = []\<rparr>\<rparr>) = Inr s
      \<and> nodes (stack s) = [Some send_file, Some func1, Some body1, Some send1]
      \<and> visit None s = Inr (True, s\<lparr>stack := \<lparr>nodes = [Some send_file, Some func1, Some body1]\<rparr>\<rparr>)"
  using stack_discipline[of fresh send_file] callbacks_send_file_leave by fastforce

text \<open>
  C7. Asked to analyse an absent tree, \<open>analyze\<close> returns at once: the analyzer is
  unchanged, so no rule has run and no issue has been added, and there is no panic.
\<close>

theorem analyze_absent_tree: "analyze a None = Inr a"
  by (simp add: analyze_def)

text \<open>
  C8. Analysing the same tree again with the same analyzer appends the same issues, in
  the same order, as the first run did: what a run adds does not depend on what the
  analyzer held before.
\<close>

theorem rerun_same_issues:
  "\<exists>a1 a2. analyze a (Some file) = Inr a1 \<and> analyze a1 (Some file) = Inr a2
     \<and> drop (length (issues a1)) (issues a2) = drop (length (issues a)) (issues a1)"
  by (simp add: analyze_Some)

text \<open>
  C9. \<open>pop\<close> on an empty stack returns the stack as it is, and \<open>pop\<close> never panics:
  any sequence of pushes and pops runs to its end, any sequence of calls of the closure
  does, and calls on nil with an empty stack change nothing.
\<close>

theorem pop_never_fails:
  "pop (p\<lparr>nodes := []\<rparr>) = Inr (p\<lparr>nodes := []\<rparr>)
   \<and> (\<exists>q. pop p = Inr q)
   \<and> (\<exists>q. foldE apply_op ops p = Inr q)
   \<and> (\<exists>a'. feed xs a = Inr a')
   \<and> feed (replicate k None) (a\<lparr>stack := \<lparr>nodes = []\<rparr>\<rparr>) = Inr (a\<lparr>stack := \<lparr>nodes = []\<rparr>\<rparr>)"
  by (simp add: pop_eq ops_total feed_total feed_nils)

text \<open>
  C10. Every issue that an analysis appends is a WARNING with the message of the send
  rule or an INFO with the message of the creation rule; among them, two issues have the
  same severity exactly when they have the same message.
\<close>

theorem issues_have_two_forms:
  "\<exists>a'. analyze a (Some file) = Inr a'
     \<and> (\<forall>i \<in> set (drop (length (issues a)) (issues a')). two_forms i)
     \<and> (\<forall>i \<in> set (drop (length (issues a)) (issues a')).
         \<forall>j \<in> set (drop (length (issues a)) (issues a')).
           (Severity i = Severity j) = (Message i = Message j))"
proof -
  have a: "two_forms i" if "i \<in> set (file_issues (fset a) file)" for i
    using that by (auto simp: file_issues_def found_two_forms)
  have b: "(Severity i = Severity j) = (Message i = Message j)"
    if "two_forms i" "two_forms j" for i j
    using that by (auto simp: two_forms_def)
  show ?thesis using a b by (simp add: analyze_Some)
qed

theorem issues_have_two_forms_witness:
  "two_forms (send_warning fs0 send1)"
proof -
  from issues_have_two_forms[of fresh send_file]
  obtain a' where "analyze fresh (Some send_file) = Inr a'"
    and "\<forall>i \<in> set (drop (length (issues fresh)) (issues a')). two_forms i" by blast
  then show ?thesis
    by (auto simp: analyze_Some file_issues_send_file fresh_def)
qed


end
